theory Spec2Isabelle
  imports Main "HOL-Library.AList"
begin

section \<open>Text primitives of the host language\<close>

text \<open>
  A character is one code point of the decoded text, below 256. The program only looks
  at characters through \<open>ord\<close>, \<open>strip\<close>, \<open>split\<close> and \<open>startswith\<close>.
\<close>

abbreviation NL :: char where "NL \<equiv> CHR 0x0A"
abbreviation CR :: char where "CR \<equiv> CHR 0x0D"

definition ord :: "char \<Rightarrow> int" where
  "ord c = of_char c"

text \<open>
  \<open>str.isspace\<close> for one character: the code points 9..13, 28..32, 133 and 160.
  \<open>strip()\<close> and \<open>split(None, ...)\<close> use this class.
\<close>

definition isspace :: "char \<Rightarrow> bool" where
  "isspace c = (let n = ord c in (9 \<le> n \<and> n \<le> 13) \<or> (28 \<le> n \<and> n \<le> 32) \<or> n = 133 \<or> n = 160)"

definition lstrip :: "string \<Rightarrow> string" where
  "lstrip s = dropWhile isspace s"

definition rstrip :: "string \<Rightarrow> string" where
  "rstrip s = rev (dropWhile isspace (rev s))"

definition strip :: "string \<Rightarrow> string" where
  "strip s = rstrip (lstrip s)"

text \<open>
  \<open>s.split(None, 1)\<close>: skip leading whitespace; the first field runs to the next
  whitespace; after the whitespace that follows it, the rest of the string, when not
  empty, is the second field, kept as it is.
\<close>

definition split1 :: "string \<Rightarrow> string list" where
  "split1 s =
     (let s1 = dropWhile isspace s in
      if s1 = [] then []
      else
        let field = takeWhile (\<lambda>c. \<not> isspace c) s1;
            remainder = dropWhile isspace (dropWhile (\<lambda>c. \<not> isspace c) s1)
        in if remainder = [] then [field] else [field, remainder])"

definition startswith :: "string \<Rightarrow> char \<Rightarrow> bool" where
  "startswith s c = (case s of [] \<Rightarrow> False | x # _ \<Rightarrow> x = c)"

datatype error =
    IOError "nat option" string
  | KeyError
  | TypeError
  | AttributeError
  | UnsupportedOperation

section \<open>Sequence\<close>

record Sequence =
  seq_id :: string
  seq_description :: "string option"
  seq_string :: string
  seq_quality :: "string option"

definition dna_complement :: "char \<rightharpoonup> char" where
  "dna_complement = map_of
     [(CHR ''A'', CHR ''T''), (CHR ''T'', CHR ''A''), (CHR ''G'', CHR ''C''),
      (CHR ''C'', CHR ''G''), (CHR ''U'', CHR ''A''), (CHR ''N'', CHR ''N''),
      (CHR ''a'', CHR ''t''), (CHR ''t'', CHR ''a''), (CHR ''g'', CHR ''c''),
      (CHR ''c'', CHR ''g''), (CHR ''u'', CHR ''a''), (CHR ''n'', CHR ''n''),
      (CHR ''W'', CHR ''W''), (CHR ''S'', CHR ''S''), (CHR ''M'', CHR ''K''),
      (CHR ''K'', CHR ''M''), (CHR ''R'', CHR ''Y''), (CHR ''Y'', CHR ''R''),
      (CHR ''B'', CHR ''V''), (CHR ''V'', CHR ''B''), (CHR ''D'', CHR ''H''),
      (CHR ''H'', CHR ''D''),
      (CHR ''w'', CHR ''w''), (CHR ''s'', CHR ''s''), (CHR ''m'', CHR ''k''),
      (CHR ''k'', CHR ''m''), (CHR ''r'', CHR ''y''), (CHR ''y'', CHR ''r''),
      (CHR ''b'', CHR ''v''), (CHR ''v'', CHR ''b''), (CHR ''d'', CHR ''h''),
      (CHR ''h'', CHR ''d'')]"

text \<open>
  The comprehension \<open>[table[base] for base in s]\<close>: the first base that is not a key
  of the table raises KeyError.
\<close>

primrec translate :: "(char \<rightharpoonup> char) \<Rightarrow> string \<Rightarrow> error + string" where
  "translate table [] = Inr []"
| "translate table (base # bases) =
     (case table base of
        None \<Rightarrow> Inl KeyError
      | Some c \<Rightarrow> (case translate table bases of Inl e \<Rightarrow> Inl e | Inr cs \<Rightarrow> Inr (c # cs)))"

definition dnaRevCom :: "Sequence \<Rightarrow> error + Sequence" where
  "dnaRevCom self =
     (case translate dna_complement (rev (seq_string self)) of
        Inl e \<Rightarrow> Inl e
      | Inr s \<Rightarrow>
          Inr \<lparr>seq_id = seq_id self,
               seq_description = seq_description self,
               seq_string = s,
               seq_quality = (case seq_quality self of None \<Rightarrow> None | Some q \<Rightarrow> Some (rev q))\<rparr>)"

text \<open>
  The DNA alphabet with the IUPAC ambiguity codes, in both cases: the four bases, N, and
  W S M K R Y B V D H.
\<close>

definition dna_alphabet :: "char set" where
  "dna_alphabet = set ''ACGTNWSMKRYBVDHacgtnwsmkrybvdh''"

section \<open>File handles\<close>

text \<open>
  A text file opened for reading delivers its decoded text, with every line ending
  (\<open>\r\n\<close>, \<open>\r\<close>, \<open>\n\<close>) translated to \<open>\n\<close>. A reading handle holds
  the text not yet read and the number of characters read so far; a writing handle holds
  the text written so far.
\<close>

fun universal_newlines :: "string \<Rightarrow> string" where
  "universal_newlines [] = []"
| "universal_newlines [c] = (if c = CR then [NL] else [c])"
| "universal_newlines (c # d # cs) =
     (if c = CR then
        (if d = NL then NL # universal_newlines cs else NL # universal_newlines (d # cs))
      else c # universal_newlines (d # cs))"

datatype file_handle = Reader string nat | Writer string

definition first_line :: "string \<Rightarrow> string" where
  "first_line txt =
     (let body = takeWhile (\<lambda>c. c \<noteq> NL) txt in
      if length body < length txt then body @ [NL] else body)"

text \<open>The text that follows the first line.\<close>

definition after_line :: "string \<Rightarrow> string" where
  "after_line t = drop (length (first_line t)) t"

text \<open>
  \<open>readline\<close> returns the next line with its terminator, or the empty string at the
  end of the text. On a handle opened for writing it raises (\<open>None\<close>).
\<close>

fun readline :: "file_handle \<Rightarrow> (string \<times> file_handle) option" where
  "readline (Reader txt p) =
     (let l = first_line txt in Some (l, Reader (drop (length l) txt) (p + length l)))"
| "readline (Writer w) = None"

fun tell :: "file_handle \<Rightarrow> nat" where
  "tell (Reader txt p) = p"
| "tell (Writer w) = length w"

fun fwrite :: "file_handle \<Rightarrow> string \<Rightarrow> file_handle option" where
  "fwrite (Writer w) s = Some (Writer (w @ s))"
| "fwrite (Reader txt p) s = None"

datatype open_mode = ModeR | ModeW | ModeA

text \<open>
  \<open>open(filepath, mode)\<close> on a file whose stored text is \<open>content\<close>.
\<close>

fun fopen :: "open_mode \<Rightarrow> string \<Rightarrow> file_handle" where
  "fopen ModeR content = Reader (universal_newlines content) 0"
| "fopen ModeW content = Writer []"
| "fopen ModeA content = Writer content"

section \<open>FastqIO\<close>

record FastqIO =
  filepath :: string
  file_handle :: "file_handle option"
  current_line_nb :: "nat option"

definition FastqIO_init :: "string \<Rightarrow> open_mode \<Rightarrow> string \<Rightarrow> FastqIO" where
  "FastqIO_init path mode content =
     \<lparr>filepath = path, file_handle = Some (fopen mode content), current_line_nb = Some 1\<rparr>"

definition FastqIO_close :: "FastqIO \<Rightarrow> FastqIO" where
  "FastqIO_close self =
     (case file_handle self of
        None \<Rightarrow> self
      | Some fh \<Rightarrow> self\<lparr>file_handle := None, current_line_nb := None\<rparr>)"


text \<open>The text a reading handle has not delivered yet (nothing for a writing handle).\<close>

fun unread :: "file_handle \<Rightarrow> nat" where
  "unread (Reader txt p) = length txt"
| "unread (Writer w) = 0"

lemma first_line_empty [simp]: "first_line txt = [] \<longleftrightarrow> txt = []"
  by (cases "txt") (auto simp: first_line_def Let_def)

lemma first_line_length: "length (first_line txt) \<le> length txt"
  using length_takeWhile_le [of "\<lambda>c. c \<noteq> NL" "txt"]
  by (auto simp: first_line_def Let_def)

lemma readline_unread:
  "readline fh = Some (l, fh') \<Longrightarrow> l \<noteq> [] \<Longrightarrow> unread fh' < unread fh"
  by (cases fh) (auto simp: Let_def)

lemma readline_unread_le:
  "readline fh = Some (l, fh') \<Longrightarrow> unread fh' \<le> unread fh"
  by (cases fh) (auto simp: Let_def)

lemma readline_tell:
  "readline fh = Some (l, fh') \<Longrightarrow> (tell fh = tell fh') = (l = [])"
  by (cases fh) (auto simp: Let_def)

text \<open>
  \<open>nextSeq\<close>. Every exception raised inside the \<open>try\<close> block becomes the IOError
  that carries the current line number and the file path: the handle is absent
  (AttributeError), the handle is not readable, the header has no field
  (IndexError on \<open>fields[0]\<close>), the line counter is absent (TypeError on \<open>+= 1\<close>).
  The state is returned as the exception leaves it.
\<close>

definition FastqIO_nextSeq :: "FastqIO \<Rightarrow> (error + Sequence option) \<times> FastqIO" where
  "FastqIO_nextSeq self =
     (let fail = (\<lambda>s. (Inl (IOError (current_line_nb s) (filepath s)), s)) in
      case file_handle self of
        None \<Rightarrow> fail self
      | Some fh0 \<Rightarrow>
         (case readline fh0 of
            None \<Rightarrow> fail self
          | Some (l1, fh1) \<Rightarrow>
             let header = strip l1;
                 self1 = self\<lparr>file_handle := Some fh1\<rparr>
             in
             if tell fh0 = tell fh1 then (Inr None, self1)
             else
              (case split1 (drop 1 header) of
                 [] \<Rightarrow> fail self1
               | field0 # others \<Rightarrow>
                  let seq_desc = (case others of [d] \<Rightarrow> Some d | _ \<Rightarrow> None) in
                  (case current_line_nb self1 of
                     None \<Rightarrow> fail self1
                   | Some n \<Rightarrow>
                      (case readline fh1 of
                         None \<Rightarrow> fail (self1\<lparr>current_line_nb := Some (n + 1)\<rparr>)
                       | Some (l2, fh2) \<Rightarrow>
                          (case readline fh2 of
                             None \<Rightarrow> fail (self1\<lparr>file_handle := Some fh2,
                                                 current_line_nb := Some (n + 2)\<rparr>)
                           | Some (l3, fh3) \<Rightarrow>
                              (case readline fh3 of
                                 None \<Rightarrow> fail (self1\<lparr>file_handle := Some fh3,
                                                     current_line_nb := Some (n + 3)\<rparr>)
                               | Some (l4, fh4) \<Rightarrow>
                                  (Inr (Some \<lparr>seq_id = field0,
                                              seq_description = seq_desc,
                                              seq_string = strip l2,
                                              seq_quality = Some (strip l4)\<rparr>),
                                   self1\<lparr>file_handle := Some fh4,
                                         current_line_nb := Some (n + 4)\<rparr>))))))))"

definition unread_of :: "file_handle option \<Rightarrow> nat" where
  "unread_of h = (case h of None \<Rightarrow> 0 | Some fh \<Rightarrow> unread fh)"

lemma FastqIO_nextSeq_unread_le:
  assumes "FastqIO_nextSeq self = (res, self')"
  shows "unread_of (file_handle self') \<le> unread_of (file_handle self)"
proof (cases "file_handle self")
  case None
  with assms show ?thesis by (auto simp: FastqIO_nextSeq_def)
next
  case (Some fh)
  show ?thesis
  proof (cases fh)
    case (Writer w)
    with Some assms show ?thesis by (auto simp: FastqIO_nextSeq_def)
  next
    case (Reader t p)
    with Some assms show ?thesis
      by (auto simp: FastqIO_nextSeq_def Let_def unread_of_def
               split: list.splits option.splits if_splits)
  qed
qed

lemma FastqIO_nextSeq_unread:
  assumes "FastqIO_nextSeq self = (Inr (Some r), self')"
  shows "unread_of (file_handle self') < unread_of (file_handle self)"
proof (cases "file_handle self")
  case None
  with assms show ?thesis by (auto simp: FastqIO_nextSeq_def)
next
  case (Some fh)
  show ?thesis
  proof (cases fh)
    case (Writer w)
    with Some assms show ?thesis by (auto simp: FastqIO_nextSeq_def)
  next
    case (Reader t p)
    with Some assms show ?thesis
      by (auto simp: FastqIO_nextSeq_def Let_def unread_of_def
               split: list.splits option.splits if_splits)
  qed
qed

text \<open>\<open>__iter__\<close>: the records \<open>nextSeq\<close> yields until it returns no record.\<close>

function FastqIO_iter :: "FastqIO \<Rightarrow> error + Sequence list" where
  "FastqIO_iter self =
     (case FastqIO_nextSeq self of
        (Inl e, self') \<Rightarrow> Inl e
      | (Inr None, self') \<Rightarrow> Inr []
      | (Inr (Some record), self') \<Rightarrow>
          (case FastqIO_iter self' of Inl e \<Rightarrow> Inl e | Inr records \<Rightarrow> Inr (record # records)))"
  by pat_completeness auto
termination
  by (relation "measure (\<lambda>self. unread_of (file_handle self))")
     (auto dest: FastqIO_nextSeq_unread [OF sym])

declare FastqIO_iter.simps [simp del]

text \<open>
  \<open>seqToFastqLine\<close> and \<open>write\<close>. Concatenating an absent quality raises TypeError;
  writing needs a handle, opened for writing, and a line counter.
\<close>

definition seqToFastqLine :: "Sequence \<Rightarrow> error + string" where
  "seqToFastqLine sequence =
     (case seq_quality sequence of
        None \<Rightarrow> Inl TypeError
      | Some quality \<Rightarrow>
          Inr (''@'' @ seq_id sequence
               @ (case seq_description sequence of None \<Rightarrow> [] | Some d \<Rightarrow> '' '' @ d)
               @ [NL] @ seq_string sequence
               @ [NL] @ ''+''
               @ [NL] @ quality))"

definition FastqIO_write :: "FastqIO \<Rightarrow> Sequence \<Rightarrow> error + FastqIO" where
  "FastqIO_write self sequence_record =
     (case file_handle self of
        None \<Rightarrow> Inl AttributeError
      | Some fh \<Rightarrow>
         (case seqToFastqLine sequence_record of
            Inl e \<Rightarrow> Inl e
          | Inr text \<Rightarrow>
             (case fwrite fh (text @ [NL]) of
                None \<Rightarrow> Inl UnsupportedOperation
              | Some fh' \<Rightarrow>
                 (case current_line_nb self of
                    None \<Rightarrow> Inl TypeError
                  | Some n \<Rightarrow>
                     Inr (self\<lparr>file_handle := Some fh', current_line_nb := Some (n + 1)\<rparr>)))))"

text \<open>The text a writing codec has put in its file.\<close>

definition written :: "FastqIO \<Rightarrow> string" where
  "written self = (case file_handle self of Some (Writer w) \<Rightarrow> w | _ \<Rightarrow> [])"

text \<open>
  \<open>isValid\<close>. The loop returns False where the source raises (every exception is
  swallowed and leaves \<open>is_valid\<close> False) and True when it ends. The regular
  expression \<open>^[A-Za-z]*$\<close> on a stripped line holds when every character is an ASCII
  letter.
\<close>

definition isalpha_ascii :: "char \<Rightarrow> bool" where
  "isalpha_ascii c = (let n = ord c in (65 \<le> n \<and> n \<le> 90) \<or> (97 \<le> n \<and> n \<le> 122))"

function FastqIO_isValid_loop :: "file_handle \<Rightarrow> nat \<Rightarrow> bool" where
  "FastqIO_isValid_loop fh seq_idx =
     (if seq_idx < 10 then
        (case readline fh of
           None \<Rightarrow> False
         | Some (curr_line, fh1) \<Rightarrow>
            if curr_line = [] then True
            else if \<not> startswith curr_line (CHR ''@'') then False
            else
             (case readline fh1 of
                None \<Rightarrow> False
              | Some (unstriped_sequence, fh2) \<Rightarrow>
                 if unstriped_sequence = [] then False
                 else if \<not> list_all isalpha_ascii (strip unstriped_sequence) then False
                 else
                  (case readline fh2 of
                     None \<Rightarrow> False
                   | Some (unstriped_separator, fh3) \<Rightarrow>
                      if unstriped_separator = [] then False
                      else
                       (case readline fh3 of
                          None \<Rightarrow> False
                        | Some (unstriped_quality, fh4) \<Rightarrow>
                           if length (strip unstriped_sequence) \<noteq> length (strip unstriped_quality)
                           then False
                           else FastqIO_isValid_loop fh4 (seq_idx + 1)))))
      else True)"
  by pat_completeness auto
termination
  by (relation "measure (\<lambda>(fh, seq_idx). 10 - seq_idx)") auto

declare FastqIO_isValid_loop.simps [simp del]

definition FastqIO_isValid :: "string \<Rightarrow> string \<Rightarrow> bool" where
  "FastqIO_isValid path content =
     (case file_handle (FastqIO_init path ModeR content) of
        None \<Rightarrow> False
      | Some fh \<Rightarrow> FastqIO_isValid_loop fh 0)"

subsection \<open>qualOffset\<close>

text \<open>
  The index \<open>int((nb_qual / 100) * 30)\<close> is computed in binary64 arithmetic. A
  positive double is a pair \<open>(m, e)\<close> that stands for \<open>m * 2 ^ e\<close>, with
  \<open>2 ^ 52 \<le> m \<le> 2 ^ 53\<close>. \<open>to_double a b\<close> is the double nearest to the
  quotient \<open>a / b\<close> of positive integers, ties to even, as the division of two ints and
  the product of two doubles round their exact results. Overflow and subnormal numbers
  are out of reach of a count divided by 100.
\<close>

fun bit_length :: "nat \<Rightarrow> nat" where
  "bit_length n = (if n = 0 then 0 else Suc (bit_length (n div 2)))"

declare bit_length.simps [simp del]

definition round_half_even :: "nat \<Rightarrow> nat \<Rightarrow> nat" where
  "round_half_even a b =
     (let q = a div b; r = a mod b in
      if 2 * r < b then q
      else if b < 2 * r then q + 1
      else if even q then q else q + 1)"

definition to_double :: "nat \<Rightarrow> nat \<Rightarrow> nat \<times> int" where
  "to_double a b =
     (let d = int (bit_length a) - int (bit_length b);
          t = (if b * 2 ^ nat d \<le> a * 2 ^ nat (- d) then d else d - 1);
          e = t - 52
      in (round_half_even (a * 2 ^ nat (- e)) (b * 2 ^ nat e), e))"

definition checked_idx :: "nat \<Rightarrow> nat" where
  "checked_idx nb_qual =
     (if nb_qual = 0 then 0
      else
        let (m, e) = to_double nb_qual 100;
            (m', e') = to_double (30 * m * 2 ^ nat e) (2 ^ nat (- e))
        in (m' * 2 ^ nat e') div 2 ^ nat (- e'))"

text \<open>
  The dictionary \<open>count_by_qual\<close> is an association list; \<open>d[k] += 1\<close> raises
  KeyError (\<open>None\<close>) when \<open>k\<close> is not a key.
\<close>

definition count_by_qual_init :: "(int \<times> nat) list" where
  "count_by_qual_init = map (\<lambda>elt. (elt, 0)) [-5..126]"

definition dict_incr :: "(int \<times> nat) list \<Rightarrow> int \<Rightarrow> (int \<times> nat) list option" where
  "dict_incr d k =
     (case map_of d k of None \<Rightarrow> None | Some v \<Rightarrow> Some (AList.update k (v + 1) d))"

text \<open>
  The \<open>for\<close> loop over \<open>zip(record.string, record.quality)\<close>, on the state
  \<open>(offset, nb_qual, count_by_qual)\<close>. The first code below 59 sets the offset and
  leaves the loop.
\<close>

fun scan_pairs ::
  "(char \<times> char) list \<Rightarrow> nat option \<times> nat \<times> (int \<times> nat) list
     \<Rightarrow> error + nat option \<times> nat \<times> (int \<times> nat) list" where
  "scan_pairs [] st = Inr st"
| "scan_pairs ((curr_nt, curr_ascii) # ps) (offset, nb_qual, count_by_qual) =
     (let num_ascii = ord curr_ascii in
      if num_ascii < 59 then Inr (Some 33, nb_qual, count_by_qual)
      else if curr_nt \<noteq> CHR ''N'' then
        (case dict_incr count_by_qual num_ascii of
           None \<Rightarrow> Inl KeyError
         | Some count_by_qual' \<Rightarrow> scan_pairs ps (offset, nb_qual + 1, count_by_qual'))
      else scan_pairs ps (offset, nb_qual, count_by_qual))"

text \<open>
  The \<open>while record and offset is None\<close> loop. After the body the next record is
  read, also when the offset has just been set. An IOError of \<open>nextSeq\<close> and the
  KeyError leave \<open>qualOffset\<close>.
\<close>

function qual_scan ::
  "FastqIO \<Rightarrow> Sequence option \<Rightarrow> nat option \<times> nat \<times> (int \<times> nat) list
     \<Rightarrow> error + nat option \<times> nat \<times> (int \<times> nat) list" where
  "qual_scan FH_in record st =
     (case record of
        None \<Rightarrow> Inr st
      | Some rec \<Rightarrow>
         if fst st \<noteq> None then Inr st
         else
          (case seq_quality rec of
             None \<Rightarrow> Inl TypeError
           | Some quality \<Rightarrow>
              (case scan_pairs (zip (seq_string rec) quality) st of
                 Inl e \<Rightarrow> Inl e
               | Inr st' \<Rightarrow>
                  (case FastqIO_nextSeq FH_in of
                     (Inl e, FH_in') \<Rightarrow> Inl e
                   | (Inr record', FH_in') \<Rightarrow> qual_scan FH_in' record' st'))))"
  by pat_completeness auto
termination
  by (relation "measure (\<lambda>(FH_in, record, st).
        unread_of (file_handle FH_in) + (case record of None \<Rightarrow> 0 | Some r \<Rightarrow> 1))")
     (auto split: option.splits
           dest: FastqIO_nextSeq_unread [OF sym] FastqIO_nextSeq_unread_le [OF sym])

declare qual_scan.simps [simp del]

text \<open>The \<open>for\<close> loop over \<open>sorted(count_by_qual.items())\<close>.\<close>

fun walk :: "(int \<times> nat) list \<Rightarrow> nat \<Rightarrow> nat \<Rightarrow> nat option \<Rightarrow> nat option" where
  "walk [] checked curr_count_sum offset = offset"
| "walk ((curr_ascii, curr_count) # items) checked curr_count_sum offset =
     (let curr_count_sum' = curr_count_sum + curr_count;
          offset' =
            (if offset = None \<and> checked \<le> curr_count_sum'
             then (if 84 < curr_ascii then Some 64 else Some 33)
             else offset)
      in walk items checked curr_count_sum' offset')"

definition FastqIO_qualOffset :: "string \<Rightarrow> string \<Rightarrow> error + nat option" where
  "FastqIO_qualOffset path content =
     (let FH_in = FastqIO_init path ModeR content in
      case FastqIO_nextSeq FH_in of
        (Inl e, FH_in') \<Rightarrow> Inl e
      | (Inr record, FH_in') \<Rightarrow>
         (case qual_scan FH_in' record (None, 0, count_by_qual_init) of
            Inl e \<Rightarrow> Inl e
          | Inr (offset, nb_qual, count_by_qual) \<Rightarrow>
             if offset = None
             then Inr (walk (sort_key fst count_by_qual) (checked_idx nb_qual) 0 None)
             else Inr offset))"

text \<open>
  For the statements about \<open>qualOffset\<close>: the pairs of base and quality character
  that the scan of a list of records examines, and the codes it counts among them, those
  of the bases other than N.
\<close>

definition examined :: "Sequence list \<Rightarrow> (char \<times> char) list" where
  "examined records =
     concat (map (\<lambda>r. case seq_quality r of None \<Rightarrow> [] | Some q \<Rightarrow> zip (seq_string r) q)
       records)"

definition counted_codes :: "(char \<times> char) list \<Rightarrow> int list" where
  "counted_codes pairs = map (\<lambda>(b, q). ord q) (filter (\<lambda>(b, q). b \<noteq> CHR ''N'') pairs)"

text \<open>The \<open>while\<close> loop of \<open>qualOffset\<close> on the list of the records it reads.\<close>

fun scan_records ::
  "Sequence list \<Rightarrow> nat option \<times> nat \<times> (int \<times> nat) list
     \<Rightarrow> error + nat option \<times> nat \<times> (int \<times> nat) list" where
  "scan_records [] st = Inr st"
| "scan_records (r # rs) st =
     (if fst st \<noteq> None then Inr st
      else
       (case seq_quality r of
          None \<Rightarrow> Inl TypeError
        | Some quality \<Rightarrow>
           (case scan_pairs (zip (seq_string r) quality) st of
              Inl e \<Rightarrow> Inl e
            | Inr st' \<Rightarrow> scan_records rs st')))"

text \<open>The histogram as the list of its 132 keys with a count for each.\<close>

definition hist :: "(int \<Rightarrow> nat) \<Rightarrow> (int \<times> nat) list" where
  "hist f = map (\<lambda>c. (c, f c)) [-5..126]"

section \<open>FastaIO\<close>

record FastaIO =
  fa_filepath :: string
  fa_file_handle :: "file_handle option"
  fa_current_line_nb :: "nat option"
  next_id :: "string option"
  end_of_file :: bool

definition FastaIO_init :: "string \<Rightarrow> open_mode \<Rightarrow> string \<Rightarrow> FastaIO" where
  "FastaIO_init path mode content =
     \<lparr>fa_filepath = path, fa_file_handle = Some (fopen mode content),
      fa_current_line_nb = Some 1, next_id = None, end_of_file = False\<rparr>"

definition FastaIO_close :: "FastaIO \<Rightarrow> FastaIO" where
  "FastaIO_close self =
     (case fa_file_handle self of
        None \<Rightarrow> self
      | Some fh \<Rightarrow> self\<lparr>fa_file_handle := None, fa_current_line_nb := None\<rparr>)"


text \<open>
  The \<open>while\<close> loop of \<open>nextSeq\<close>: the lines up to the next header or the end of
  the text are stripped and concatenated. It returns the body and the line that ended
  it (absent at the end of the text), or nothing where the source raises.
\<close>

function FastaIO_read_body ::
  "FastaIO \<Rightarrow> string \<Rightarrow> string \<Rightarrow> (string \<times> string option) option \<times> FastaIO" where
  "FastaIO_read_body self line seq_str =
     (if startswith line (CHR ''>'') then (Some (seq_str, Some line), self)
      else
        let seq_str' = seq_str @ strip line in
        case fa_file_handle self of
          None \<Rightarrow> (None, self)
        | Some fh \<Rightarrow>
           (case readline fh of
              None \<Rightarrow> (None, self)
            | Some (line', fh') \<Rightarrow>
               let self1 = self\<lparr>fa_file_handle := Some fh'\<rparr> in
               if line' = [] then (Some (seq_str', None), self1\<lparr>end_of_file := True\<rparr>)
               else
                (case fa_current_line_nb self1 of
                   None \<Rightarrow> (None, self1)
                 | Some n \<Rightarrow>
                    FastaIO_read_body (self1\<lparr>fa_current_line_nb := Some (n + 1)\<rparr>)
                      line' seq_str')))"
  by pat_completeness auto
termination
  by (relation "measure (\<lambda>(self, line, seq_str). unread_of (fa_file_handle self))")
     (auto simp: unread_of_def dest: readline_unread)

declare FastaIO_read_body.simps [simp del]

definition FastaIO_nextSeq :: "FastaIO \<Rightarrow> (error + Sequence option) \<times> FastaIO" where
  "FastaIO_nextSeq self =
     (if end_of_file self then (Inr None, self)
      else
        let fail = (\<lambda>s. (Inl (IOError (fa_current_line_nb s) (fa_filepath s)), s));
            first =
              (if fa_current_line_nb self = Some 1 then
                 (case fa_file_handle self of
                    None \<Rightarrow> (False, self)
                  | Some fh \<Rightarrow>
                     (case readline fh of
                        None \<Rightarrow> (False, self)
                      | Some (l, fh') \<Rightarrow>
                         (True, self\<lparr>fa_file_handle := Some fh',
                                     next_id := Some (strip l),
                                     fa_current_line_nb := Some 2\<rparr>)))
               else (True, self))
        in
        if \<not> fst first then fail (snd first)
        else
         (case FastaIO_read_body (snd first) [] [] of
            (None, self2) \<Rightarrow> fail self2
          | (Some (seq_str, line), self2) \<Rightarrow>
             (case next_id self2 of
                None \<Rightarrow> fail self2
              | Some pending \<Rightarrow>
                 (case split1 (drop 1 pending) of
                    [] \<Rightarrow> fail self2
                  | field0 # others \<Rightarrow>
                     let seq_desc = (case others of [d] \<Rightarrow> Some (strip d) | _ \<Rightarrow> None) in
                     (Inr (Some \<lparr>seq_id = field0,
                                 seq_description = seq_desc,
                                 seq_string = seq_str,
                                 seq_quality = None\<rparr>),
                      self2\<lparr>next_id := line\<rparr>)))))"

function FastaIO_isValid_loop :: "file_handle \<Rightarrow> nat \<Rightarrow> bool option \<Rightarrow> bool" where
  "FastaIO_isValid_loop fh seq_idx prev_is_header =
     (if seq_idx < 10 then
        (case readline fh of
           None \<Rightarrow> False
         | Some (curr_line, fh') \<Rightarrow>
            if curr_line = [] then True
            else if startswith curr_line (CHR ''>'') then
              (if prev_is_header = Some True then False
               else FastaIO_isValid_loop fh' (seq_idx + 1) (Some True))
            else
              (if seq_idx = 0 then False
               else FastaIO_isValid_loop fh' seq_idx (Some False)))
      else True)"
  by pat_completeness auto
termination
  by (relation "measure (\<lambda>(fh, seq_idx, prev_is_header). unread fh)")
     (auto dest: readline_unread)

declare FastaIO_isValid_loop.simps [simp del]

definition FastaIO_isValid :: "string \<Rightarrow> string \<Rightarrow> bool" where
  "FastaIO_isValid path content =
     (case fa_file_handle (FastaIO_init path ModeR content) of
        None \<Rightarrow> False
      | Some fh \<Rightarrow> FastaIO_isValid_loop fh 0 None)"

text \<open>
  For the statement about the detector: the lines of a text as \<open>readline\<close> delivers
  them one after the other; the lines the detector's loop reads, which stops once it has
  counted ten headers; and whether a list of lines has a header line immediately
  followed by another header line.
\<close>

lemma after_line_shorter: "t \<noteq> [] \<Longrightarrow> length (after_line t) < length t"
  by (cases "first_line t") (auto simp: after_line_def)

function text_lines :: "string \<Rightarrow> string list" where
  "text_lines t = (if t = [] then [] else first_line t # text_lines (after_line t))"
  by pat_completeness auto
termination
  by (relation "measure length") (auto simp: after_line_shorter)

declare text_lines.simps [simp del]

fun scanned :: "nat \<Rightarrow> string list \<Rightarrow> string list" where
  "scanned seq_idx [] = []"
| "scanned seq_idx (l # ls) =
     (if seq_idx < 10
      then l # scanned (if startswith l (CHR ''>'') then seq_idx + 1 else seq_idx) ls
      else [])"

fun adjacent_headers :: "string list \<Rightarrow> bool" where
  "adjacent_headers (a # b # ls) =
     ((startswith a (CHR ''>'') \<and> startswith b (CHR ''>'')) \<or> adjacent_headers (b # ls))"
| "adjacent_headers ls = False"

text \<open>The detector's loop, on the list of the lines it will read.\<close>

fun accepts :: "nat \<Rightarrow> bool option \<Rightarrow> string list \<Rightarrow> bool" where
  "accepts seq_idx prev [] = True"
| "accepts seq_idx prev (l # ls) =
     (if seq_idx < 10 then
        (if startswith l (CHR ''>'') then
           (if prev = Some True then False else accepts (seq_idx + 1) (Some True) ls)
         else (if seq_idx = 0 then False else accepts seq_idx (Some False) ls))
      else True)"

section \<open>Reverse complement\<close>

lemma translate_dna_twice:
  "\<forall>c \<in> set s. c \<in> dna_alphabet \<Longrightarrow>
     \<exists>t. translate dna_complement s = Inr t \<and> length t = length s
       \<and> translate dna_complement t = Inr s"
proof (induction s)
  case Nil
  then show ?case by simp
next
  case (Cons c s)
  then obtain t where t: "translate dna_complement s = Inr t" "length t = length s"
    "translate dna_complement t = Inr s"
    by auto
  from Cons.prems have "c \<in> dna_alphabet" by simp
  then obtain d where d: "dna_complement c = Some d" "dna_complement d = Some c"
    by (auto simp: dna_alphabet_def dna_complement_def)
  with t show ?case by simp
qed

lemma translate_append:
  "translate table (a @ b) =
     (case translate table a of
        Inl e \<Rightarrow> Inl e
      | Inr x \<Rightarrow> (case translate table b of Inl e \<Rightarrow> Inl e | Inr y \<Rightarrow> Inr (x @ y)))"
  by (induction a) (auto split: option.splits sum.splits)

lemma translate_rev:
  "translate table s = Inr t \<Longrightarrow> translate table (rev s) = Inr (rev t)"
proof (induction s arbitrary: t)
  case Nil
  then show ?case by simp
next
  case (Cons c s)
  then show ?case
    by (auto simp: translate_append split: option.splits sum.splits)
qed

text \<open>
  C8. On a record whose residues are all in the DNA alphabet (IUPAC ambiguity codes
  included, upper or lower case), \<open>dnaRevCom\<close> succeeds, and \<open>dnaRevCom\<close> of its
  result is the original record: same id, description, residues and quality. On residues
  \<open>ACGTN\<close> it yields residues \<open>NACGT\<close>.
\<close>

theorem dnaRevCom_twice:
  "((\<forall>c \<in> set (seq_string r). c \<in> dna_alphabet) \<longrightarrow>
      (\<exists>r'. dnaRevCom r = Inr r' \<and> dnaRevCom r' = Inr r))
   \<and> (seq_string r = ''ACGTN'' \<longrightarrow>
      (\<exists>r'. dnaRevCom r = Inr r' \<and> seq_string r' = ''NACGT''))"
proof (intro conjI impI)
  assume "\<forall>c \<in> set (seq_string r). c \<in> dna_alphabet"
  then have "\<forall>c \<in> set (rev (seq_string r)). c \<in> dna_alphabet" by simp
  from translate_dna_twice [OF this]
  obtain t where t: "translate dna_complement (rev (seq_string r)) = Inr t"
    "translate dna_complement t = Inr (rev (seq_string r))"
    by blast
  from translate_rev [OF t(2)]
  have inv: "translate dna_complement (rev t) = Inr (seq_string r)" by simp
  show "\<exists>r'. dnaRevCom r = Inr r' \<and> dnaRevCom r' = Inr r"
    using t(1) inv by (cases "seq_quality r") (simp_all add: dnaRevCom_def)
next
  assume "seq_string r = ''ACGTN''"
  then show "\<exists>r'. dnaRevCom r = Inr r' \<and> seq_string r' = ''NACGT''"
    by (simp add: dnaRevCom_def dna_complement_def)
qed

theorem dnaRevCom_twice_witness:
  "set ''ACGTN'' \<subseteq> dna_alphabet
   \<and> (\<exists>r'. dnaRevCom \<lparr>seq_id = ''s1'', seq_description = Some ''desc one'',
                        seq_string = ''ACGTN'', seq_quality = Some ''IIIJK''\<rparr> = Inr r'
          \<and> seq_string r' = ''NACGT''
          \<and> dnaRevCom r' = Inr \<lparr>seq_id = ''s1'', seq_description = Some ''desc one'',
                        seq_string = ''ACGTN'', seq_quality = Some ''IIIJK''\<rparr>)"
  using dnaRevCom_twice [of "\<lparr>seq_id = ''s1'', seq_description = Some ''desc one'',
                        seq_string = ''ACGTN'', seq_quality = Some ''IIIJK''\<rparr>"]
  by (auto simp: dna_alphabet_def)

section \<open>Closing a codec\<close>

text \<open>
  C10. For both FastqIO and FastaIO: after \<open>close\<close> the file handle is absent; when the
  handle was open, the line counter is cleared too; and a further \<open>close\<close> (the one the
  destructor makes included) changes nothing. \<open>close\<close> has no failing branch.
\<close>

theorem close_idempotent:
  "file_handle (FastqIO_close q) = None
   \<and> (file_handle q \<noteq> None \<longrightarrow> current_line_nb (FastqIO_close q) = None)
   \<and> FastqIO_close (FastqIO_close q) = FastqIO_close q
   \<and> fa_file_handle (FastaIO_close a) = None
   \<and> (fa_file_handle a \<noteq> None \<longrightarrow> fa_current_line_nb (FastaIO_close a) = None)
   \<and> FastaIO_close (FastaIO_close a) = FastaIO_close a"
  by (cases "file_handle q"; cases "fa_file_handle a")
     (simp_all add: FastqIO_close_def FastaIO_close_def)

theorem close_idempotent_witness:
  "file_handle (FastqIO_init ''a.fq'' ModeR ''x'') \<noteq> None
   \<and> fa_file_handle (FastaIO_init ''a.fa'' ModeW []) \<noteq> None
   \<and> FastqIO_close (FastqIO_init ''a.fq'' ModeR ''x'')
       = \<lparr>filepath = ''a.fq'', file_handle = None, current_line_nb = None\<rparr>
   \<and> FastqIO_close (FastqIO_close (FastqIO_init ''a.fq'' ModeR ''x''))
       = \<lparr>filepath = ''a.fq'', file_handle = None, current_line_nb = None\<rparr>
   \<and> FastaIO_close (FastaIO_close (FastaIO_init ''a.fa'' ModeW []))
       = \<lparr>fa_filepath = ''a.fa'', fa_file_handle = None, fa_current_line_nb = None,
          next_id = None, end_of_file = False\<rparr>"
  using close_idempotent [of "FastqIO_init ''a.fq'' ModeR ''x''" "FastaIO_init ''a.fa'' ModeW []"]
  by (simp add: FastqIO_init_def FastaIO_init_def FastqIO_close_def FastaIO_close_def)

section \<open>Lines and whitespace\<close>

lemma takeWhile_not_NL: "NL \<notin> set l \<Longrightarrow> takeWhile (\<lambda>c. c \<noteq> NL) (l @ NL # rest) = l"
  by (induction l) auto

lemma first_line_append:
  assumes "NL \<notin> set l"
  shows "first_line (l @ NL # rest) = l @ [NL]"
  unfolding first_line_def Let_def takeWhile_not_NL [OF assms] by simp

lemma first_line_last:
  assumes "NL \<notin> set l"
  shows "first_line l = l"
proof -
  from assms have tw: "takeWhile (\<lambda>c. c \<noteq> NL) l = l"
    by (induction l) auto
  show ?thesis unfolding first_line_def Let_def tw by simp
qed

lemma readline_Reader_line:
  "NL \<notin> set l \<Longrightarrow>
     readline (Reader (l @ NL # rest) p) = Some (l @ [NL], Reader rest (p + Suc (length l)))"
  by (simp add: first_line_append)

lemma isspace_NL [simp]: "isspace NL"
  by (simp add: isspace_def ord_def)

lemma isspace_CR [simp]: "isspace CR"
  by (simp add: isspace_def ord_def)

lemma strip_snoc_space:
  assumes "isspace c"
  shows "strip (l @ [c]) = strip l"
proof (cases "\<forall>x\<in>set l. isspace x")
  case True
  then have "dropWhile isspace l = []" by simp
  moreover from True assms have "dropWhile isspace (l @ [c]) = []" by simp
  ultimately show ?thesis by (simp only: strip_def lstrip_def rstrip_def)
next
  case False
  then have "dropWhile isspace (l @ [c]) = dropWhile isspace l @ [c]"
    by (auto simp: dropWhile_append)
  then show ?thesis using assms by (simp add: strip_def lstrip_def rstrip_def)
qed

lemma universal_newlines_id: "CR \<notin> set s \<Longrightarrow> universal_newlines s = s"
  by (induction s rule: universal_newlines.induct) auto

section \<open>FastaIO.nextSeq on an empty file\<close>

text \<open>
  C9. On an empty FASTA file the first \<open>nextSeq\<close> raises the IOError (the pending
  header is empty and has no id), with the line counter at 2; it has set the end-of-file
  flag, and the next call returns no record. A codec starts with the flag unset, and
  \<open>nextSeq\<close> returns no record exactly when it is called with the flag set.
\<close>

theorem FastaIO_nextSeq_empty_file:
  "fst (FastaIO_nextSeq (FastaIO_init path ModeR [])) = Inl (IOError (Some 2) path)
   \<and> end_of_file (snd (FastaIO_nextSeq (FastaIO_init path ModeR [])))
   \<and> fst (FastaIO_nextSeq (snd (FastaIO_nextSeq (FastaIO_init path ModeR [])))) = Inr None
   \<and> \<not> end_of_file (FastaIO_init path mode content)
   \<and> (fst (FastaIO_nextSeq self) = Inr None) = end_of_file self"
proof -
  have body: "FastaIO_read_body
       \<lparr>fa_filepath = path, fa_file_handle = Some (Reader [] 0),
          fa_current_line_nb = Some 2, next_id = Some [], end_of_file = False\<rparr> [] []
     = (Some ([], None),
        \<lparr>fa_filepath = path, fa_file_handle = Some (Reader [] 0),
          fa_current_line_nb = Some 2, next_id = Some [], end_of_file = True\<rparr>)"
    by (subst FastaIO_read_body.simps)
       (simp add: startswith_def strip_def lstrip_def rstrip_def first_line_def)
  have first: "FastaIO_nextSeq (FastaIO_init path ModeR [])
     = (Inl (IOError (Some 2) path),
        \<lparr>fa_filepath = path, fa_file_handle = Some (Reader [] 0),
          fa_current_line_nb = Some 2, next_id = Some [], end_of_file = True\<rparr>)"
    by (simp add: FastaIO_nextSeq_def FastaIO_init_def first_line_def strip_def lstrip_def
          rstrip_def body split1_def)
  have second: "fst (FastaIO_nextSeq
        \<lparr>fa_filepath = path, fa_file_handle = Some (Reader [] 0),
          fa_current_line_nb = Some 2, next_id = Some [], end_of_file = True\<rparr>) = Inr None"
    by (simp add: FastaIO_nextSeq_def)
  have sentinel: "(fst (FastaIO_nextSeq self) = Inr None) = end_of_file self"
    by (auto simp: FastaIO_nextSeq_def Let_def split: prod.splits option.splits list.splits)
  show ?thesis
    unfolding first using second sentinel by (simp add: FastaIO_init_def)
qed

section \<open>FastqIO.nextSeq\<close>

lemma strip_fixed:
  assumes "s \<noteq> []" "\<not> isspace (hd s)" "\<not> isspace (last s)"
  shows "strip s = s"
proof -
  from assms have l: "dropWhile isspace s = s" by (cases s) auto
  from assms have "rev s \<noteq> []" "\<not> isspace (hd (rev s))" by (auto simp: hd_rev)
  then have "dropWhile isspace (rev s) = rev s" by (cases "rev s") auto
  with l show ?thesis by (simp add: strip_def lstrip_def rstrip_def)
qed

lemma strip_fixed_ends:
  assumes "strip s = s" "s \<noteq> []"
  shows "\<not> isspace (hd s) \<and> \<not> isspace (last s)"
proof -
  have len: "length (strip s) \<le> length (dropWhile isspace s)"
    using length_dropWhile_le [of isspace "rev (dropWhile isspace s)"]
    by (simp add: strip_def lstrip_def rstrip_def)
  have a: "\<not> isspace (hd s)"
  proof
    assume "isspace (hd s)"
    with assms(2) have "length (dropWhile isspace s) < length s"
      using length_dropWhile_le [of isspace "tl s"] by (cases s) auto
    with len assms(1) show False by simp
  qed
  then have l: "dropWhile isspace s = s" using assms(2) by (cases s) auto
  have b: "\<not> isspace (last s)"
  proof
    assume sp: "isspace (last s)"
    from assms(2) have "rev s \<noteq> []" by simp
    then obtain x xs where r: "rev s = x # xs" by (cases "rev s") auto
    with assms(2) have "x = last s" by (metis hd_rev list.sel(1))
    with sp r have "length (dropWhile isspace (rev s)) < length s"
      using length_dropWhile_le [of isspace xs]
      by (metis dropWhile.simps(2) le_imp_less_Suc length_Cons length_rev)
    moreover from l assms(1) have "rev (dropWhile isspace (rev s)) = s"
      by (simp add: strip_def lstrip_def rstrip_def)
    then have "length (dropWhile isspace (rev s)) = length s"
      by (metis length_rev)
    ultimately show False by simp
  qed
  from a b show ?thesis ..
qed

lemma takeWhile_field:
  "\<forall>c\<in>set f. \<not> isspace c \<Longrightarrow> isspace x \<Longrightarrow>
     takeWhile (\<lambda>c. \<not> isspace c) (f @ x # r) = f
     \<and> dropWhile (\<lambda>c. \<not> isspace c) (f @ x # r) = x # r"
  by (induction f) auto

lemma split1_one_field:
  assumes "f \<noteq> []" "\<forall>c\<in>set f. \<not> isspace c"
  shows "split1 f = [f]"
proof -
  from assms have a: "dropWhile isspace f = f" by (cases f) auto
  from assms(2) have b: "takeWhile (\<lambda>c. \<not> isspace c) f = f"
    and c: "dropWhile (\<lambda>c. \<not> isspace c) f = []"
    by simp_all
  show ?thesis unfolding split1_def Let_def a b c using assms(1) by simp
qed

lemma split1_two_fields:
  assumes "f \<noteq> []" "\<forall>c\<in>set f. \<not> isspace c" "isspace x" "d \<noteq> []" "\<not> isspace (hd d)"
  shows "split1 (f @ x # d) = [f, d]"
proof -
  from assms(1,2) have "dropWhile isspace (f @ x # d) = f @ x # d" by (cases f) auto
  moreover from assms(4,5) have "dropWhile isspace d = d" by (cases d) auto
  ultimately show ?thesis
    using assms(1,3,4) takeWhile_field [OF assms(2,3), of d]
    by (simp add: split1_def Let_def)
qed

lemma after_line_append: "NL \<notin> set l \<Longrightarrow> after_line (l @ NL # rest) = rest"
  by (simp add: after_line_def first_line_append)

lemma FastqIO_nextSeq_Reader:
  assumes "file_handle self = Some (Reader t p)" and "current_line_nb self = Some n"
  shows "fst (FastqIO_nextSeq self) =
     (if t = [] then Inr None
      else
        case split1 (drop 1 (strip (first_line t))) of
          [] \<Rightarrow> Inl (IOError (Some n) (filepath self))
        | f # others \<Rightarrow>
            Inr (Some \<lparr>seq_id = f,
                       seq_description = (case others of [d] \<Rightarrow> Some d | _ \<Rightarrow> None),
                       seq_string = strip (first_line (after_line t)),
                       seq_quality =
                         Some (strip (first_line (after_line (after_line (after_line t)))))\<rparr>))"
  using assms
  by (simp add: FastqIO_nextSeq_def Let_def after_line_def split: list.splits)

lemma FastqIO_nextSeq_no_handle:
  "file_handle self = None \<Longrightarrow>
     FastqIO_nextSeq self = (Inl (IOError (current_line_nb self) (filepath self)), self)"
  by (simp add: FastqIO_nextSeq_def)

lemma FastqIO_nextSeq_error_shape:
  "(case fst (FastqIO_nextSeq self) of
      Inl e \<Rightarrow> e = IOError (current_line_nb (snd (FastqIO_nextSeq self)))
                           (filepath (snd (FastqIO_nextSeq self)))
    | Inr r \<Rightarrow> True)"
  by (auto simp: FastqIO_nextSeq_def Let_def split: option.splits list.splits sum.splits)

lemma FastqIO_nextSeq_sentinel:
  "(fst (FastqIO_nextSeq self) = Inr None)
     = (\<exists>fh l fh'. file_handle self = Some fh \<and> readline fh = Some (l, fh') \<and> tell fh = tell fh')"
  by (auto simp: FastqIO_nextSeq_def Let_def split: option.splits list.splits)

text \<open>
  C6, as amended. \<open>nextSeq\<close> returns no record exactly when there is a handle, the
  header read succeeds and it leaves the position unchanged. Whenever it raises, the
  error is the IOError that carries the current line number and the file path. On an
  open, readable codec with a line counter it raises exactly when some text was read
  and the header line, stripped and without its first character, holds no field; the
  end of the text in the middle of a record is not a failure.
\<close>

theorem FastqIO_nextSeq_outcomes:
  "(fst (FastqIO_nextSeq self) = Inr None)
     = (\<exists>fh l fh'. file_handle self = Some fh \<and> readline fh = Some (l, fh') \<and> tell fh = tell fh')
   \<and> (case fst (FastqIO_nextSeq self) of
        Inl e \<Rightarrow> e = IOError (current_line_nb (snd (FastqIO_nextSeq self)))
                             (filepath (snd (FastqIO_nextSeq self)))
      | Inr r \<Rightarrow> True)
   \<and> (file_handle self = Some (Reader t p) \<and> current_line_nb self = Some n \<longrightarrow>
        (\<exists>e. fst (FastqIO_nextSeq self) = Inl e)
          = (t \<noteq> [] \<and> split1 (drop 1 (strip (first_line t))) = []))"
proof (intro conjI impI)
  show "(fst (FastqIO_nextSeq self) = Inr None)
     = (\<exists>fh l fh'. file_handle self = Some fh \<and> readline fh = Some (l, fh') \<and> tell fh = tell fh')"
    by (rule FastqIO_nextSeq_sentinel)
  show "(case fst (FastqIO_nextSeq self) of
        Inl e \<Rightarrow> e = IOError (current_line_nb (snd (FastqIO_nextSeq self)))
                             (filepath (snd (FastqIO_nextSeq self)))
      | Inr r \<Rightarrow> True)"
    by (rule FastqIO_nextSeq_error_shape)
next
  assume "file_handle self = Some (Reader t p) \<and> current_line_nb self = Some n"
  then show "(\<exists>e. fst (FastqIO_nextSeq self) = Inl e)
          = (t \<noteq> [] \<and> split1 (drop 1 (strip (first_line t))) = [])"
    by (auto simp: FastqIO_nextSeq_Reader split: list.splits)
qed

theorem FastqIO_nextSeq_outcomes_witness:
  "(\<exists>e. fst (FastqIO_nextSeq (FastqIO_init ''reads.fq'' ModeR [NL])) = Inl e)
   \<and> (\<nexists>e. fst (FastqIO_nextSeq (FastqIO_init ''reads.fq'' ModeR
                (''@r1'' @ [NL] @ ''ACGT'' @ [NL]))) = Inl e)"
proof -
  have a: "split1 (drop 1 (strip (first_line [NL]))) = []"
    by (simp add: first_line_def strip_def lstrip_def rstrip_def split1_def)
  have b: "split1 (drop 1 (strip (first_line (''@r1'' @ [NL] @ ''ACGT'' @ [NL])))) \<noteq> []"
    by (simp add: first_line_def strip_def lstrip_def rstrip_def split1_def
          isspace_def ord_def)
  from a have "\<exists>e. fst (FastqIO_nextSeq (FastqIO_init ''reads.fq'' ModeR [NL])) = Inl e"
    using FastqIO_nextSeq_outcomes [of "FastqIO_init ''reads.fq'' ModeR [NL]" "[NL]" 0 1]
    by (simp add: FastqIO_init_def)
  moreover from b
  have "\<nexists>e. fst (FastqIO_nextSeq (FastqIO_init ''reads.fq'' ModeR
                (''@r1'' @ [NL] @ ''ACGT'' @ [NL]))) = Inl e"
    using FastqIO_nextSeq_outcomes
      [of "FastqIO_init ''reads.fq'' ModeR (''@r1'' @ [NL] @ ''ACGT'' @ [NL])"
          "''@r1'' @ [NL] @ ''ACGT'' @ [NL]" 0 1]
    by (simp add: FastqIO_init_def)
  ultimately show ?thesis by blast
qed

text \<open>
  The claim C6 as stated fails: when the text ends after the sequence line of a record,
  \<open>nextSeq\<close> raises nothing and returns a record with an empty quality.
\<close>

theorem FastqIO_nextSeq_truncated_record:
  "fst (FastqIO_nextSeq (FastqIO_init ''reads.fq'' ModeR (''@r1'' @ [NL] @ ''ACGT'' @ [NL])))
     = Inr (Some \<lparr>seq_id = ''r1'', seq_description = None, seq_string = ''ACGT'',
                  seq_quality = Some []\<rparr>)"
  by (simp add: FastqIO_nextSeq_def FastqIO_init_def first_line_def strip_def lstrip_def
        rstrip_def split1_def isspace_def ord_def)

section \<open>Sequence and quality of different lengths\<close>

lemma first_line_line:
  assumes "NL \<notin> set l" "fin = [] \<or> hd fin = NL"
  shows "first_line (l @ fin) = (if fin = [] then l else l @ [NL])"
proof (cases fin)
  case Nil
  with assms show ?thesis by (simp add: first_line_last)
next
  case (Cons c cs)
  with assms show ?thesis by (simp add: first_line_append)
qed

lemma strip_line:
  assumes "NL \<notin> set l" "fin = [] \<or> hd fin = NL"
  shows "strip (first_line (l @ fin)) = strip l"
  using first_line_line [OF assms] strip_snoc_space [of NL l] by simp

text \<open>
  C5. The decoded text starts with a record of four lines: a header that carries an id
  after its first character, a sequence line, a separator line and a quality line
  (ended by a newline or by the end of the text) whose stripped content is shorter than
  the stripped content of the sequence line. Then \<open>isValid\<close> is false, while
  \<open>nextSeq\<close> raises nothing and returns the record with these two strings.
\<close>

theorem FastqIO_short_quality:
  assumes "universal_newlines content = h @ NL # s @ NL # sp @ NL # q @ fin"
    and "NL \<notin> set h" and "NL \<notin> set s" and "NL \<notin> set sp" and "NL \<notin> set q"
    and "fin = [] \<or> hd fin = NL"
    and "split1 (drop 1 (strip h)) \<noteq> []"
    and "length (strip q) < length (strip s)"
  shows "\<not> FastqIO_isValid path content
    \<and> (\<exists>r. fst (FastqIO_nextSeq (FastqIO_init path ModeR content)) = Inr (Some r)
          \<and> seq_string r = strip s \<and> seq_quality r = Some (strip q))"
proof
  have q: "strip (first_line (q @ fin)) = strip q"
    using assms(5,6) by (rule strip_line)
  have sl: "strip (s @ [NL]) = strip s" "strip (h @ [NL]) = strip h"
    by (simp_all add: strip_snoc_space)
  show "\<not> FastqIO_isValid path content"
    using assms(2-4,8) q sl
    by (simp add: FastqIO_isValid_def FastqIO_init_def assms(1)
          FastqIO_isValid_loop.simps [of _ 0] first_line_append Let_def)
  have t: "universal_newlines content \<noteq> []" by (simp add: assms(1))
  show "\<exists>r. fst (FastqIO_nextSeq (FastqIO_init path ModeR content)) = Inr (Some r)
          \<and> seq_string r = strip s \<and> seq_quality r = Some (strip q)"
    using assms(2-4,7) q sl
    by (simp add: FastqIO_nextSeq_Reader [of _ "universal_newlines content" 0 1]
          FastqIO_init_def assms(1) first_line_append after_line_append
          split: list.splits)
qed

theorem FastqIO_short_quality_witness:
  "\<not> FastqIO_isValid ''reads.fq'' (''@r1'' @ [NL] @ ''ACGT'' @ [NL] @ ''+'' @ [NL] @ ''II'' @ [NL])
   \<and> (\<exists>r. fst (FastqIO_nextSeq (FastqIO_init ''reads.fq'' ModeR
                 (''@r1'' @ [NL] @ ''ACGT'' @ [NL] @ ''+'' @ [NL] @ ''II'' @ [NL]))) = Inr (Some r)
          \<and> seq_string r = ''ACGT'' \<and> seq_quality r = Some ''II'')"
proof -
  have s: "strip ''ACGT'' = ''ACGT''" "strip ''II'' = ''II''"
    by (simp_all add: strip_fixed isspace_def ord_def)
  have h: "split1 (drop 1 (strip ''@r1'')) \<noteq> []"
    by (simp add: strip_fixed split1_def isspace_def ord_def)
  show ?thesis
    using FastqIO_short_quality [of "''@r1'' @ [NL] @ ''ACGT'' @ [NL] @ ''+'' @ [NL] @ ''II'' @ [NL]"
        "''@r1''" "''ACGT''" "''+''" "''II''" "[NL]" "''reads.fq''"] s h
    by simp
qed

section \<open>Writing a record and reading it back\<close>

lemma not_isspace_at [simp]: "\<not> isspace (CHR ''@'')"
  by (simp add: isspace_def ord_def)

lemma isspace_blank [simp]: "isspace (CHR '' '')"
  by (simp add: isspace_def ord_def)

lemma no_space_no_newline:
  "\<forall>c\<in>set s. \<not> isspace c \<Longrightarrow> NL \<notin> set s \<and> CR \<notin> set s"
  by auto

lemma header_fields:
  assumes "ident \<noteq> []" "\<forall>c\<in>set ident. \<not> isspace c"
    and "case desc of None \<Rightarrow> True | Some d \<Rightarrow> d \<noteq> [] \<and> strip d = d"
  shows "split1 (drop 1 (strip ((CHR ''@'' # ident
            @ (case desc of None \<Rightarrow> [] | Some d \<Rightarrow> '' '' @ d)) @ [NL])))
       = (case desc of None \<Rightarrow> [ident] | Some d \<Rightarrow> [ident, d])"
proof (cases desc)
  case None
  have "strip (CHR ''@'' # ident) = CHR ''@'' # ident"
    using assms(1,2) by (intro strip_fixed) auto
  then show ?thesis
    using None assms(1,2) strip_snoc_space [of NL "CHR ''@'' # ident"]
    by (simp add: split1_one_field)
next
  case (Some d)
  with assms(3) have d: "d \<noteq> []" "strip d = d" by auto
  from strip_fixed_ends [OF d(2,1)] have ends: "\<not> isspace (hd d)" "\<not> isspace (last d)"
    by auto
  have "strip (CHR ''@'' # ident @ CHR '' '' # d) = CHR ''@'' # ident @ CHR '' '' # d"
    using d(1) ends(2) by (intro strip_fixed) auto
  then show ?thesis
    using Some assms(1,2) d(1) ends(1)
      strip_snoc_space [of NL "CHR ''@'' # ident @ CHR '' '' # d"]
    by (simp add: split1_two_fields)
qed

text \<open>
  C1, as amended. The record has a quality string, of the length of its residues; its
  id is not empty and holds no whitespace; its description is absent, or not empty; and
  description, residues and quality hold no line terminator (\<open>\n\<close>, \<open>\r\<close>) and no
  leading or trailing whitespace. Then writing it to a new file succeeds and \<open>nextSeq\<close>
  on that file returns the same record.
\<close>

theorem FastqIO_write_then_nextSeq:
  assumes "seq_quality r = Some q" and "length q = length (seq_string r)"
    and "seq_id r \<noteq> []" and "\<forall>c\<in>set (seq_id r). \<not> isspace c"
    and "case seq_description r of
           None \<Rightarrow> True
         | Some d \<Rightarrow> d \<noteq> [] \<and> strip d = d \<and> NL \<notin> set d \<and> CR \<notin> set d"
    and "strip (seq_string r) = seq_string r"
    and "NL \<notin> set (seq_string r)" and "CR \<notin> set (seq_string r)"
    and "strip q = q" and "NL \<notin> set q" and "CR \<notin> set q"
  shows "\<exists>w. FastqIO_write (FastqIO_init path ModeW old) r = Inr w
           \<and> fst (FastqIO_nextSeq (FastqIO_init path ModeR (written w))) = Inr (Some r)"
proof -
  define dpart where "dpart = (case seq_description r of None \<Rightarrow> [] | Some d \<Rightarrow> '' '' @ d)"
  define hdr where "hdr = CHR ''@'' # seq_id r @ dpart"
  define body where "body = hdr @ NL # seq_string r @ NL # ''+'' @ NL # q @ [NL]"
  have w: "FastqIO_write (FastqIO_init path ModeW old) r
      = Inr \<lparr>filepath = path, file_handle = Some (Writer body), current_line_nb = Some 2\<rparr>"
    by (simp add: FastqIO_write_def FastqIO_init_def seqToFastqLine_def assms(1) body_def
          hdr_def dpart_def)
  have wr: "written \<lparr>filepath = path, file_handle = Some (Writer body),
                     current_line_nb = Some 2\<rparr> = body"
    by (simp add: written_def)
  from no_space_no_newline [OF assms(4)]
  have idn: "NL \<notin> set (seq_id r)" "CR \<notin> set (seq_id r)" by auto
  have dn: "NL \<notin> set dpart" "CR \<notin> set dpart"
    using assms(5) by (auto simp: dpart_def split: option.splits)
  have hn: "NL \<notin> set hdr" "CR \<notin> set hdr"
    using idn dn by (auto simp: hdr_def)
  have "CR \<notin> set body"
    using hn assms(8,11) by (auto simp: body_def)
  then have un: "universal_newlines body = body" by (rule universal_newlines_id)
  have fields: "split1 (drop (Suc 0) (strip (hdr @ [NL])))
       = (case seq_description r of None \<Rightarrow> [seq_id r] | Some d \<Rightarrow> [seq_id r, d])"
    unfolding hdr_def dpart_def
    using header_fields [of "seq_id r" "seq_description r"] assms(3,4,5)
    by (auto split: option.splits)
  have plus: "NL \<notin> set ''+''" by simp
  have lines: "first_line body = hdr @ [NL]"
    "first_line (after_line body) = seq_string r @ [NL]"
    "first_line (after_line (after_line (after_line body))) = q @ [NL]"
    using hn(1) assms(7,10) plus
    by (simp_all add: body_def first_line_append after_line_append
          first_line_append [of q "[]", simplified]
          after_line_append [of "''+''", simplified])
  have ne: "body \<noteq> []" by (simp add: body_def)
  have init: "FastqIO_init path ModeR body
      = \<lparr>filepath = path, file_handle = Some (Reader body 0), current_line_nb = Some 1\<rparr>"
    by (simp add: FastqIO_init_def un)
  have sq: "strip (seq_string r @ [NL]) = seq_string r" "strip (q @ [NL]) = q"
    using assms(6,9) by (simp_all add: strip_snoc_space)
  have "fst (FastqIO_nextSeq (FastqIO_init path ModeR body)) = Inr (Some r)"
    unfolding init
    by (subst FastqIO_nextSeq_Reader [of _ body 0 1])
       (simp_all add: ne lines fields sq assms(1) split: option.splits)
  with w wr show ?thesis by simp
qed

theorem FastqIO_write_then_nextSeq_witness:
  "\<exists>w. FastqIO_write (FastqIO_init ''out.fq'' ModeW [])
          \<lparr>seq_id = ''r1'', seq_description = Some ''desc one'', seq_string = ''ACGT'',
             seq_quality = Some ''IIII''\<rparr> = Inr w
     \<and> fst (FastqIO_nextSeq (FastqIO_init ''out.fq'' ModeR (written w)))
         = Inr (Some \<lparr>seq_id = ''r1'', seq_description = Some ''desc one'',
                      seq_string = ''ACGT'', seq_quality = Some ''IIII''\<rparr>)"
proof -
  have s: "strip ''desc one'' = ''desc one''" "strip ''ACGT'' = ''ACGT''"
    "strip ''IIII'' = ''IIII''"
    by (simp_all add: strip_fixed isspace_def ord_def)
  have i: "\<forall>c\<in>set ''r1''. \<not> isspace c"
    by (simp add: isspace_def ord_def)
  show ?thesis
    using FastqIO_write_then_nextSeq [of "\<lparr>seq_id = ''r1'', seq_description = Some ''desc one'',
        seq_string = ''ACGT'', seq_quality = Some ''IIII''\<rparr>" "''IIII''" "''out.fq''" "[]"] s i
    by simp
qed

text \<open>
  The claim C1 as stated fails. An id with a blank inside, or an empty description, has
  no newline and nothing for \<open>strip\<close> to remove, yet the record read back differs: the
  header is split at the blank, and a trailing blank of the header is stripped.
\<close>

theorem FastqIO_write_then_nextSeq_not_equal:
  "strip ''a b'' = ''a b''
   \<and> (\<exists>w. FastqIO_write (FastqIO_init ''out.fq'' ModeW [])
          \<lparr>seq_id = ''a b'', seq_description = None, seq_string = ''ACGT'',
             seq_quality = Some ''IIII''\<rparr> = Inr w
     \<and> fst (FastqIO_nextSeq (FastqIO_init ''out.fq'' ModeR (written w)))
         = Inr (Some \<lparr>seq_id = ''a'', seq_description = Some ''b'',
                      seq_string = ''ACGT'', seq_quality = Some ''IIII''\<rparr>))
   \<and> strip [] = []
   \<and> (\<exists>w. FastqIO_write (FastqIO_init ''out.fq'' ModeW [])
          \<lparr>seq_id = ''r1'', seq_description = Some [], seq_string = ''ACGT'',
             seq_quality = Some ''IIII''\<rparr> = Inr w
     \<and> fst (FastqIO_nextSeq (FastqIO_init ''out.fq'' ModeR (written w)))
         = Inr (Some \<lparr>seq_id = ''r1'', seq_description = None,
                      seq_string = ''ACGT'', seq_quality = Some ''IIII''\<rparr>))"
  by (simp add: FastqIO_write_def FastqIO_init_def seqToFastqLine_def written_def
        FastqIO_nextSeq_def first_line_def strip_def lstrip_def rstrip_def split1_def
        isspace_def ord_def)

section \<open>The FASTA detector\<close>

lemma FastaIO_isValid_loop_accepts:
  "FastaIO_isValid_loop (Reader t p) k prev = accepts k prev (text_lines t)"
proof (induction t arbitrary: p k prev rule: text_lines.induct)
  case (1 t)
  show ?case
  proof (cases "t = []")
    case True
    then show ?thesis
      by (subst FastaIO_isValid_loop.simps, subst text_lines.simps) (simp add: Let_def)
  next
    case False
    with 1 show ?thesis
      by (subst FastaIO_isValid_loop.simps, subst text_lines.simps)
         (simp add: Let_def after_line_def)
  qed
qed

lemma adjacent_headers_head:
  "startswith a (CHR ''>'') = startswith b (CHR ''>'')
     \<Longrightarrow> adjacent_headers (a # ls) = adjacent_headers (b # ls)"
  by (cases ls) auto

lemma adjacent_headers_skip:
  "\<not> startswith a (CHR ''>'') \<Longrightarrow> adjacent_headers (a # ls) = adjacent_headers ls"
  by (cases ls) auto

lemma accepts_iff:
  "accepts k prev ls =
     ((k = 0 \<and> ls \<noteq> [] \<longrightarrow> startswith (hd ls) (CHR ''>''))
      \<and> \<not> adjacent_headers ((if prev = Some True then [''>''] else []) @ scanned k ls))"
proof (induction ls arbitrary: k prev)
  case Nil
  then show ?case by simp
next
  case (Cons l ls)
  have gt: "startswith ''>'' (CHR ''>'')" by (simp add: startswith_def)
  show ?case
  proof (cases "k < 10")
    case False
    then show ?thesis by simp
  next
    case True
    show ?thesis
    proof (cases "startswith l (CHR ''>'')")
      case h: True
      have "adjacent_headers (l # scanned (Suc k) ls) = adjacent_headers (''>'' # scanned (Suc k) ls)"
        using h gt by (intro adjacent_headers_head) simp
      with True h gt show ?thesis
        by (simp add: Cons.IH)
    next
      case nh: False
      with True show ?thesis
        by (simp add: Cons.IH adjacent_headers_skip gt)
    qed
  qed
qed

text \<open>
  C7. The detector accepts a file exactly when the first line of its text, if there is
  one, starts with \<open>></\<close> and, among the lines it scans (up to the tenth header or the
  end of the text), no header line is immediately followed by another header line.
\<close>

theorem FastaIO_isValid_iff:
  "FastaIO_isValid path content =
     ((case text_lines (universal_newlines content) of
         [] \<Rightarrow> True
       | l # ls \<Rightarrow> startswith l (CHR ''>''))
      \<and> \<not> adjacent_headers (scanned 0 (text_lines (universal_newlines content))))"
  by (simp add: FastaIO_isValid_def FastaIO_init_def FastaIO_isValid_loop_accepts accepts_iff
        split: list.splits)

theorem FastaIO_isValid_iff_witness:
  "FastaIO_isValid ''seqs.fa'' (''>s1 desc one'' @ [NL] @ ''ACGT'' @ [NL] @ ''>s2'' @ [NL] @ ''TTTT'' @ [NL])
   \<and> \<not> FastaIO_isValid ''seqs.fa'' (''>s1'' @ [NL] @ ''>s2'' @ [NL] @ ''TTTT'' @ [NL])
   \<and> \<not> FastaIO_isValid ''seqs.fa'' (''ACGT'' @ [NL] @ ''>s2'' @ [NL])"
proof -
  have a: "text_lines (''>s1 desc one'' @ [NL] @ ''ACGT'' @ [NL] @ ''>s2'' @ [NL] @ ''TTTT'' @ [NL])
      = [''>s1 desc one'' @ [NL], ''ACGT'' @ [NL], ''>s2'' @ [NL], ''TTTT'' @ [NL]]"
    by (simp add: text_lines.simps first_line_def after_line_def)
  have b: "text_lines (''>s1'' @ [NL] @ ''>s2'' @ [NL] @ ''TTTT'' @ [NL])
      = [''>s1'' @ [NL], ''>s2'' @ [NL], ''TTTT'' @ [NL]]"
    by (simp add: text_lines.simps first_line_def after_line_def)
  have c: "text_lines (''ACGT'' @ [NL] @ ''>s2'' @ [NL]) = [''ACGT'' @ [NL], ''>s2'' @ [NL]]"
    by (simp add: text_lines.simps first_line_def after_line_def)
  show ?thesis
    using a b c
    by (simp add: FastaIO_isValid_iff startswith_def)
qed

section \<open>The scan of qualOffset\<close>

lemma count_by_qual_init_hist: "count_by_qual_init = hist (\<lambda>c. 0)"
  by (simp add: count_by_qual_init_def hist_def)

lemma map_of_keys:
  "map_of (map (\<lambda>c. (c, f c)) ks) k = (if k \<in> set ks then Some (f k) else None)"
  by (induction ks) auto

lemma update_keys_map:
  "distinct ks \<Longrightarrow> k \<in> set ks \<Longrightarrow>
     AList.update k v (map (\<lambda>c. (c, f c)) ks) = map (\<lambda>c. (c, (f(k := v)) c)) ks"
proof (induction ks)
  case Nil
  then show ?case by simp
next
  case (Cons a ks)
  show ?case
  proof (cases "a = k")
    case True
    with Cons.prems have "k \<notin> set ks" by simp
    then have "map (\<lambda>c. (c, (f(k := v)) c)) ks = map (\<lambda>c. (c, f c)) ks"
      by (intro map_cong) auto
    with True show ?thesis by simp
  next
    case False
    with Cons show ?thesis by simp
  qed
qed

lemma dict_incr_hist:
  "dict_incr (hist f) k =
     (if - 5 \<le> k \<and> k \<le> 126 then Some (hist (f(k := f k + 1))) else None)"
  by (auto simp: dict_incr_def hist_def map_of_keys update_keys_map)

lemma sort_hist: "sort_key fst (hist f) = hist f"
  by (rule sort_key_id_if_sorted) (simp add: hist_def comp_def)

lemma counted_codes_Cons:
  "counted_codes ((b, q) # ps) =
     (if b \<noteq> CHR ''N'' then ord q # counted_codes ps else counted_codes ps)"
  by (simp add: counted_codes_def)

lemma counted_codes_append:
  "counted_codes (ps @ qs) = counted_codes ps @ counted_codes qs"
  by (simp add: counted_codes_def)

lemma scan_pairs_counts:
  assumes "\<forall>(b, q)\<in>set ps. 59 \<le> ord q" and "\<forall>c\<in>set (counted_codes ps). c \<le> 126"
  shows "scan_pairs ps (None, n, hist f) =
     Inr (None, n + length (counted_codes ps),
          hist (\<lambda>c. f c + count_list (counted_codes ps) c))"
  using assms
proof (induction ps arbitrary: n f)
  case Nil
  then show ?case by (simp add: counted_codes_def)
next
  case (Cons p ps)
  obtain b q where p: "p = (b, q)" by (cases p)
  from Cons.prems p have q: "59 \<le> ord q" and rest: "\<forall>(b, q)\<in>set ps. 59 \<le> ord q"
    by auto
  show ?case
  proof (cases "b = CHR ''N''")
    case True
    with Cons.prems p have "\<forall>c\<in>set (counted_codes ps). c \<le> 126"
      by (simp add: counted_codes_Cons)
    from Cons.IH [OF rest this] True p q show ?thesis
      by (simp add: counted_codes_Cons)
  next
    case False
    with Cons.prems p have le: "ord q \<le> 126" and r2: "\<forall>c\<in>set (counted_codes ps). c \<le> 126"
      by (simp_all add: counted_codes_Cons)
    define f' where "f' = f(ord q := f (ord q) + 1)"
    have step: "scan_pairs (p # ps) (None, n, hist f) = scan_pairs ps (None, n + 1, hist f')"
      using False p q le by (simp add: dict_incr_hist f'_def Let_def)
    have upd: "(\<lambda>c. f' c + count_list (counted_codes ps) c)
        = (\<lambda>c. f c + count_list (ord q # counted_codes ps) c)"
      by (rule ext) (simp add: f'_def)
    have cc: "counted_codes (p # ps) = ord q # counted_codes ps"
      using False p by (simp add: counted_codes_Cons)
    show ?thesis
      unfolding step cc Cons.IH [OF rest r2, of "n + 1" f'] upd by simp
  qed
qed

lemma scan_pairs_low:
  assumes "\<exists>(b, q)\<in>set ps. ord q < 59"
    and "\<forall>c\<in>set (counted_codes (takeWhile (\<lambda>(b, q). 59 \<le> ord q) ps)). c \<le> 126"
  shows "\<exists>n' f'. scan_pairs ps (None, n, hist f) = Inr (Some 33, n', hist f')"
  using assms
proof (induction ps arbitrary: n f)
  case Nil
  then show ?case by simp
next
  case (Cons p ps)
  obtain b q where p: "p = (b, q)" by (cases p)
  show ?case
  proof (cases "ord q < 59")
    case True
    with p show ?thesis by (intro exI [of _ n] exI [of _ f]) simp
  next
    case False
    with Cons.prems p have low: "\<exists>(b, q)\<in>set ps. ord q < 59" by auto
    show ?thesis
    proof (cases "b = CHR ''N''")
      case True
      with Cons.prems(2) p False
      have "\<forall>c\<in>set (counted_codes (takeWhile (\<lambda>(b, q). 59 \<le> ord q) ps)). c \<le> 126"
        by (simp add: counted_codes_Cons)
      from Cons.IH [OF low this] True p False show ?thesis by simp
    next
      case nN: False
      with Cons.prems(2) p False
      have le: "ord q \<le> 126"
        and r2: "\<forall>c\<in>set (counted_codes (takeWhile (\<lambda>(b, q). 59 \<le> ord q) ps)). c \<le> 126"
        by (simp_all add: counted_codes_Cons)
      define f' where "f' = f(ord q := f (ord q) + 1)"
      have step: "scan_pairs (p # ps) (None, n, hist f) = scan_pairs ps (None, n + 1, hist f')"
        using nN p False le by (simp add: dict_incr_hist f'_def Let_def)
      show ?thesis unfolding step by (rule Cons.IH [OF low r2])
    qed
  qed
qed

lemma FastqIO_iter_cases:
  assumes "FastqIO_iter FH = Inr recs"
  shows "(\<exists>FH'. FastqIO_nextSeq FH = (Inr None, FH') \<and> recs = [])
     \<or> (\<exists>r FH' rest. FastqIO_nextSeq FH = (Inr (Some r), FH')
            \<and> FastqIO_iter FH' = Inr rest \<and> recs = r # rest)"
  using assms
  by (subst (asm) FastqIO_iter.simps)
     (auto split: prod.splits sum.splits option.splits)

lemma FastqIO_nextSeq_quality:
  "FastqIO_nextSeq FH = (Inr (Some r), FH') \<Longrightarrow> seq_quality r \<noteq> None"
  by (auto simp: FastqIO_nextSeq_def Let_def split: option.splits list.splits if_splits)

lemma FastqIO_iter_quality:
  "FastqIO_iter FH = Inr recs \<Longrightarrow> \<forall>r\<in>set recs. seq_quality r \<noteq> None"
proof (induction recs arbitrary: FH)
  case Nil
  then show ?case by simp
next
  case (Cons r recs)
  from FastqIO_iter_cases [OF Cons.prems]
  obtain FH' where "FastqIO_nextSeq FH = (Inr (Some r), FH')" "FastqIO_iter FH' = Inr recs"
    by auto
  with Cons.IH FastqIO_nextSeq_quality show ?case by auto
qed

lemma qual_scan_None: "qual_scan FH None st = Inr st"
  by (subst qual_scan.simps) simp

lemma qual_scan_records:
  "FastqIO_iter FH = Inr rest \<Longrightarrow> seq_quality r \<noteq> None \<Longrightarrow>
     qual_scan FH (Some r) st = scan_records (r # rest) st"
proof (induction rest arbitrary: FH r st)
  case Nil
  from FastqIO_iter_cases [OF Nil.prems(1)]
  obtain FH' where "FastqIO_nextSeq FH = (Inr None, FH')" by auto
  with Nil.prems(2) show ?case
    by (subst qual_scan.simps) (auto simp: qual_scan_None split: sum.splits)
next
  case (Cons r' rest)
  from FastqIO_iter_cases [OF Cons.prems(1)]
  obtain FH' where nx: "FastqIO_nextSeq FH = (Inr (Some r'), FH')"
    and it: "FastqIO_iter FH' = Inr rest"
    by auto
  from FastqIO_nextSeq_quality [OF nx] have q': "seq_quality r' \<noteq> None" .
  note IH = Cons.IH [OF it q']
  from Cons.prems(2) show ?case
    by (subst qual_scan.simps) (auto simp: nx IH split: sum.splits)
qed

lemma scan_records_set: "fst st \<noteq> None \<Longrightarrow> scan_records rs st = Inr st"
  by (cases rs) auto

lemma scan_pairs_offset:
  "scan_pairs ps (None, n, h) = Inr (off, n', h') \<Longrightarrow> off = None \<or> off = Some 33"
  by (induction ps "(None :: nat option, n, h)" arbitrary: n h rule: scan_pairs.induct)
     (auto simp: Let_def split: if_splits option.splits)

lemma scan_pairs_append:
  "scan_pairs (a @ b) (None, n, h) =
     (case scan_pairs a (None, n, h) of
        Inl e \<Rightarrow> Inl e
      | Inr st' \<Rightarrow> if fst st' \<noteq> None then Inr st' else scan_pairs b st')"
proof (induction a arbitrary: n h)
  case Nil
  then show ?case by simp
next
  case (Cons p a)
  obtain c q where p: "p = (c, q)" by (cases p)
  show ?case
    by (simp add: p Let_def Cons.IH split: option.splits)
qed

lemma scan_records_examined:
  "\<forall>r\<in>set recs. seq_quality r \<noteq> None \<Longrightarrow>
     scan_records recs (None, n, h) = scan_pairs (examined recs) (None, n, h)"
proof (induction recs arbitrary: n h)
  case Nil
  then show ?case by (simp add: examined_def)
next
  case (Cons r recs)
  then obtain q where q: "seq_quality r = Some q" by auto
  have ex: "examined (r # recs) = zip (seq_string r) q @ examined recs"
    by (simp add: examined_def q)
  show ?case
  proof (cases "scan_pairs (zip (seq_string r) q) (None, n, h)")
    case (Inl e)
    then show ?thesis by (simp add: q ex scan_pairs_append)
  next
    case (Inr st')
    obtain off n' h' where st': "st' = (off, n', h')" by (cases st')
    show ?thesis
    proof (cases off)
      case None
      with Inr st' Cons show ?thesis
        by (simp add: q ex scan_pairs_append)
    next
      case (Some a)
      with Inr st' show ?thesis
        by (simp add: q ex scan_pairs_append scan_records_set)
    qed
  qed
qed

lemma qualOffset_records:
  assumes "FastqIO_iter (FastqIO_init path ModeR content) = Inr recs"
  shows "FastqIO_qualOffset path content =
     (case scan_pairs (examined recs) (None, 0, count_by_qual_init) of
        Inl e \<Rightarrow> Inl e
      | Inr (offset, nb_qual, count_by_qual) \<Rightarrow>
          if offset = None
          then Inr (walk (sort_key fst count_by_qual) (checked_idx nb_qual) 0 None)
          else Inr offset)"
proof -
  from FastqIO_iter_quality [OF assms] have q: "\<forall>r\<in>set recs. seq_quality r \<noteq> None" .
  from FastqIO_iter_cases [OF assms]
  show ?thesis
  proof (elim disjE exE conjE)
    fix FH'
    assume "FastqIO_nextSeq (FastqIO_init path ModeR content) = (Inr None, FH')" "recs = []"
    then show ?thesis
      by (simp add: FastqIO_qualOffset_def qual_scan_None examined_def)
  next
    fix r FH' rest
    assume nx: "FastqIO_nextSeq (FastqIO_init path ModeR content) = (Inr (Some r), FH')"
      and it: "FastqIO_iter FH' = Inr rest" and recs: "recs = r # rest"
    from q recs have "seq_quality r \<noteq> None" by simp
    from qual_scan_records [OF it this]
    have "qual_scan FH' (Some r) (None, 0, count_by_qual_init)
        = scan_pairs (examined recs) (None, 0, count_by_qual_init)"
      using scan_records_examined [OF q] recs by simp
    then show ?thesis
      by (simp add: FastqIO_qualOffset_def nx)
  qed
qed

section \<open>The walk of the histogram\<close>

lemma walk_Some: "walk items k s (Some off) = Some off"
  by (induction items k s "Some off" rule: walk.induct) (simp_all add: Let_def)

lemma walk_hit:
  "k \<le> s + v \<Longrightarrow> walk ((c, v) # items) k s None = Some (if 84 < c then 64 else 33)"
  by (simp add: Let_def walk_Some)

lemma walk_miss:
  "s + v < k \<Longrightarrow> walk ((c, v) # items) k s None = walk items k (s + v) None"
  by (simp add: Let_def)

lemma walk_first:
  assumes "s + sum_list (map f pre) < k" and "k \<le> s + sum_list (map f pre) + f c"
  shows "walk (map (\<lambda>c. (c, f c)) (pre @ c # post)) k s None
           = Some (if 84 < c then 64 else 33)"
  using assms
proof (induction pre arbitrary: s)
  case Nil
  then show ?case by (simp add: Let_def walk_Some)
next
  case (Cons a pre)
  from Cons.prems have "s + f a < k" by simp
  then have "walk (map (\<lambda>c. (c, f c)) ((a # pre) @ c # post)) k s None
      = walk (map (\<lambda>c. (c, f c)) (pre @ c # post)) k (s + f a) None"
    by (simp add: walk_miss)
  also have "\<dots> = Some (if 84 < c then 64 else 33)"
    using Cons.prems by (intro Cons.IH) (simp_all add: add.assoc)
  finally show ?case .
qed

lemma walk_zero_upto:
  "a \<le> b \<Longrightarrow> a \<le> 84 \<Longrightarrow> walk (map (\<lambda>c. (c, f c)) [a..b]) 0 0 None = Some 33"
  by (subst upto_rec1) (simp_all add: Let_def walk_Some)

lemma walk_zero: "walk (hist f) 0 0 None = Some 33"
  unfolding hist_def by (rule walk_zero_upto) simp_all

lemma sum_indicator_upto:
  "sum_list (map (\<lambda>c. if y = c then 1 else 0) [a..b]) = (if a \<le> y \<and> y \<le> b then 1 else (0::nat))"
proof -
  have "sum_list (map (\<lambda>c. if y = c then 1 else 0) [a..b])
      = (\<Sum>c\<in>{a..b}. if y = c then 1 else (0::nat))"
    by (simp add: sum_list_distinct_conv_sum_set)
  then show ?thesis by simp
qed

lemma sum_count_upto:
  "sum_list (map (count_list codes) [a..b]) = length (filter (\<lambda>y. a \<le> y \<and> y \<le> b) codes)"
proof (induction codes)
  case Nil
  then show ?case by simp
next
  case (Cons y codes)
  have "sum_list (map (count_list (y # codes)) [a..b])
      = sum_list (map (\<lambda>c. count_list codes c + (if y = c then 1 else 0)) [a..b])"
    by (intro arg_cong [where f = sum_list] map_cong) auto
  also have "\<dots> = sum_list (map (count_list codes) [a..b])
      + sum_list (map (\<lambda>c. if y = c then 1 else 0) [a..b])"
    by (simp add: sum_list_addf)
  also have "\<dots> = length (filter (\<lambda>y. a \<le> y \<and> y \<le> b) (y # codes))"
    by (simp add: Cons.IH sum_indicator_upto)
  finally show ?case .
qed

lemma length_filter_sort: "length (filter P (sort xs)) = length (filter P (xs :: int list))"
  by (simp add: filter_sort)

lemma sorted_count_le:
  fixes xs :: "int list"
  assumes "sorted xs" and "1 \<le> k" and "k \<le> length xs"
  shows "k \<le> length (filter (\<lambda>y. y \<le> xs ! (k - 1)) xs)"
proof -
  have "\<forall>y\<in>set (take k xs). y \<le> xs ! (k - 1)"
  proof
    fix y assume "y \<in> set (take k xs)"
    then obtain i where i: "i < k" "y = xs ! i"
      using assms(3) by (auto simp: in_set_conv_nth)
    with assms show "y \<le> xs ! (k - 1)"
      by (auto intro!: sorted_nth_mono)
  qed
  then have "filter (\<lambda>y. y \<le> xs ! (k - 1)) (take k xs) = take k xs" by simp
  moreover have "length (filter (\<lambda>y. y \<le> xs ! (k - 1)) (take k xs))
      \<le> length (filter (\<lambda>y. y \<le> xs ! (k - 1)) xs)"
    by (subst (2) append_take_drop_id [of k xs, symmetric], subst filter_append) simp
  ultimately show ?thesis using assms(3) by simp
qed

lemma sorted_count_less:
  fixes xs :: "int list"
  assumes "sorted xs" and "1 \<le> k" and "k \<le> length xs"
  shows "length (filter (\<lambda>y. y \<le> xs ! (k - 1) - 1) xs) < k"
proof -
  have "\<forall>y\<in>set (drop (k - 1) xs). \<not> y \<le> xs ! (k - 1) - 1"
  proof
    fix y assume "y \<in> set (drop (k - 1) xs)"
    then obtain i where i: "k - 1 \<le> i" "i < length xs" "y = xs ! i"
      by (auto simp: in_set_conv_nth) (metis add.commute le_add1 less_diff_conv)
    with assms(1) have "xs ! (k - 1) \<le> y" by (auto intro!: sorted_nth_mono)
    then show "\<not> y \<le> xs ! (k - 1) - 1" by simp
  qed
  then have "filter (\<lambda>y. y \<le> xs ! (k - 1) - 1) (drop (k - 1) xs) = []" by simp
  then have "filter (\<lambda>y. y \<le> xs ! (k - 1) - 1) xs
      = filter (\<lambda>y. y \<le> xs ! (k - 1) - 1) (take (k - 1) xs)"
    by (subst append_take_drop_id [of "k - 1" xs, symmetric], subst filter_append) simp
  then have "length (filter (\<lambda>y. y \<le> xs ! (k - 1) - 1) xs) \<le> length (take (k - 1) xs)"
    by (simp only: length_filter_le)
  with assms(2,3) show ?thesis by simp
qed

lemma walk_percentile:
  assumes "\<forall>c\<in>set codes. - 5 \<le> c \<and> c \<le> 126" and "1 \<le> k" and "k \<le> length codes"
  shows "walk (hist (count_list codes)) k 0 None
           = Some (if 84 < sort codes ! (k - 1) then 64 else 33)"
proof -
  define x where "x = sort codes ! (k - 1)"
  from assms(2,3) have "k - 1 < length (sort codes)" by simp
  then have "x \<in> set (sort codes)" unfolding x_def by (rule nth_mem)
  then have xmem: "x \<in> set codes" by simp
  with assms(1) have lo: "- 5 \<le> x" and hi: "x \<le> 126" by auto
  have keys: "[- 5..126] = [- 5..x - 1] @ x # [x + 1..126]"
    using lo hi by (rule upto_split3)
  have low_all: "filter (\<lambda>y. - 5 \<le> y \<and> y \<le> b) codes = filter (\<lambda>y. y \<le> b) codes" for b
    using assms(1) by (intro filter_cong) auto
  have pre: "sum_list (map (count_list codes) [- 5..x - 1])
      = length (filter (\<lambda>y. y \<le> x - 1) codes)"
    by (simp only: sum_count_upto low_all)
  have "[- 5..x] = [- 5..x - 1] @ [x]" using lo by (rule upto_rec2)
  then have "sum_list (map (count_list codes) [- 5..x])
      = sum_list (map (count_list codes) [- 5..x - 1]) + count_list codes x"
    by simp
  then have upto: "sum_list (map (count_list codes) [- 5..x - 1]) + count_list codes x
      = length (filter (\<lambda>y. y \<le> x) codes)"
    by (simp only: sum_count_upto low_all)
  have srt: "sorted (sort codes)" "k \<le> length (sort codes)" using assms(3) by simp_all
  from sorted_count_less [OF srt(1) assms(2) srt(2)]
  have less: "length (filter (\<lambda>y. y \<le> x - 1) codes) < k"
    by (simp only: x_def length_filter_sort)
  from sorted_count_le [OF srt(1) assms(2) srt(2)]
  have le: "k \<le> length (filter (\<lambda>y. y \<le> x) codes)"
    by (simp only: x_def length_filter_sort)
  have "walk (map (\<lambda>c. (c, count_list codes c)) ([- 5..x - 1] @ x # [x + 1..126])) k 0 None
      = Some (if 84 < x then 64 else 33)"
    using less le pre upto by (intro walk_first) simp_all
  then show ?thesis by (simp only: hist_def keys x_def)
qed

lemma qualOffset_no_low:
  assumes "FastqIO_iter (FastqIO_init path ModeR content) = Inr recs"
    and "\<forall>(b, q)\<in>set (examined recs). 59 \<le> ord q"
    and "\<forall>c\<in>set (counted_codes (examined recs)). c \<le> 126"
  shows "FastqIO_qualOffset path content =
     Inr (walk (hist (count_list (counted_codes (examined recs))))
            (checked_idx (length (counted_codes (examined recs)))) 0 None)"
  by (simp add: qualOffset_records [OF assms(1)] count_by_qual_init_hist
        scan_pairs_counts [OF assms(2,3)] sort_hist)

lemma qualOffset_low:
  assumes "FastqIO_iter (FastqIO_init path ModeR content) = Inr recs"
    and "\<exists>(b, q)\<in>set (examined recs). ord q < 59"
    and "\<forall>c\<in>set (counted_codes (takeWhile (\<lambda>(b, q). 59 \<le> ord q) (examined recs))). c \<le> 126"
  shows "FastqIO_qualOffset path content = Inr (Some 33)"
proof -
  from scan_pairs_low [OF assms(2,3), of 0 "\<lambda>c. 0"]
  obtain n' f' where "scan_pairs (examined recs) (None, 0, hist (\<lambda>c. 0)) = Inr (Some 33, n', hist f')"
    by blast
  then show ?thesis
    by (simp add: qualOffset_records [OF assms(1)] count_by_qual_init_hist)
qed

lemma counted_codes_ge:
  "\<forall>(b, q)\<in>set ps. 59 \<le> ord q \<Longrightarrow> \<forall>c\<in>set (counted_codes ps). 59 \<le> c"
  by (auto simp: counted_codes_def)

end
